theory Spec2Isabelle
  imports Main "HOL-Library.AList" "HOL-Library.Multiset"
begin

section \<open>The output buffer of the terminal streamer (main.go)\<close>

text \<open>
  A \<open>*websocket.Conn\<close> is used by the program only as a map key and as the target of
  \<open>websocket.JSON.Send\<close>: it is modelled by its identity. The value sent for a line is the
  Go map literal \<open>map[string]string{"line": line}\<close>, kept as its list of key/value pairs.
\<close>

type_synonym conn = nat

type_synonym message = "(string \<times> string) list"

definition line_message :: "string \<Rightarrow> message" where
  "line_message line = [(''line'', line)]"

text \<open>
  \<open>type OutputBuffer struct\<close>. The two mutexes are not fields of the model: every function
  below that stands for a critical section says which lock protects it. The Go map
  \<open>clients\<close> is an association list whose key order stands for the (unspecified) order in
  which \<open>range\<close> visits the keys.
\<close>

record OutputBuffer =
  recentLines :: "string list"
  maxBufferSize :: int
  clients :: "(conn \<times> bool) list"

text \<open>The run-time panics that the buffer code can raise.\<close>

datatype panic = MakesliceCapOutOfRange | SliceBoundsOutOfRange

text \<open>
  \<open>NewOutputBuffer\<close>: \<open>make([]string, 0, capacity)\<close> panics with
  \<open>makeslice: cap out of range\<close> for a negative capacity and for one whose backing array
  would exceed what the runtime can allocate at all. The largest capacity that \<open>make\<close>
  accepts for a slice of strings is taken from a 64-bit platform with 48 address bits
  (\<open>maxAlloc\<close> is \<open>2^48\<close> bytes there and a string header takes 16 bytes). A capacity
  below that bound for which the machine has no memory ends the program with a fatal
  error of the runtime; the model takes the memory to be there.
\<close>

definition maxSliceCap :: int where
  "maxSliceCap = 2 ^ 44"

definition NewOutputBuffer :: "int \<Rightarrow> panic + OutputBuffer" where
  "NewOutputBuffer capacity =
     (if capacity < 0 \<or> maxSliceCap < capacity then Inl MakesliceCapOutOfRange
      else Inr \<lparr>recentLines = [], maxBufferSize = capacity, clients = []\<rparr>)"

text \<open>
  The program together with its surroundings: the buffer, the transport (which
  connections fail on \<open>Send\<close> and with which error, every \<open>Send\<close> that was attempted,
  the messages that reached each connection) and the output of \<open>log.Printf\<close>.
\<close>

record world =
  buf :: OutputBuffer
  send_err :: "conn \<Rightarrow> string option"
  attempts :: "(conn \<times> message) list"
  delivered :: "conn \<Rightarrow> message list"
  logged :: "string list"

definition start_world :: "OutputBuffer \<Rightarrow> (conn \<Rightarrow> string option) \<Rightarrow> world" where
  "start_world b errs =
     \<lparr>buf = b, send_err = errs, attempts = [], delivered = (\<lambda>_. []), logged = []\<rparr>"

text \<open>
  \<open>websocket.JSON.Send(ws, v)\<close>: the call is recorded; on a healthy connection the
  message is appended to what the connection has received and \<open>nil\<close> is returned, on a
  failing one the error is returned and nothing is received. What is recorded, in
  \<open>attempts\<close> and in \<open>delivered\<close>, is the Go value handed to \<open>Send\<close>, not the bytes that
  \<open>encoding/json\<close> writes for it (which replace the invalid UTF-8 of a line by U+FFFD): a
  connection has received a message when \<open>Send\<close> has written that value to it. Every call
  returns; a \<open>Send\<close> that stalls on a peer that does not read is outside the model.
\<close>

definition JSON_Send :: "conn \<Rightarrow> message \<Rightarrow> world \<Rightarrow> string option \<times> world" where
  "JSON_Send ws v w =
     (let w' = w\<lparr>attempts := attempts w @ [(ws, v)]\<rparr>
      in case send_err w ws of
           Some e \<Rightarrow> (Some e, w')
         | None \<Rightarrow> (None, w'\<lparr>delivered := (delivered w)(ws := delivered w ws @ [v])\<rparr>))"

text \<open>
  The critical section of \<open>AddLine\<close> (between \<open>b.mu.Lock()\<close> and \<open>b.mu.Unlock()\<close>).
  \<open>b.recentLines[1:]\<close> panics on a slice of length 0.
\<close>

definition AddLine_locked :: "string \<Rightarrow> OutputBuffer \<Rightarrow> panic + OutputBuffer" where
  "AddLine_locked line b =
     (if maxBufferSize b \<le> int (length (recentLines b)) then
        (case recentLines b of
           [] \<Rightarrow> Inl SliceBoundsOutOfRange
         | _ # rest \<Rightarrow> Inr (b\<lparr>recentLines := rest @ [line]\<rparr>))
      else Inr (b\<lparr>recentLines := recentLines b @ [line]\<rparr>))"

text \<open>\<open>GetLines\<close> (under \<open>b.mu.RLock()\<close>): a copy of the retained lines.\<close>

definition GetLines :: "OutputBuffer \<Rightarrow> string list" where
  "GetLines b = recentLines b"

text \<open>
  \<open>Broadcast\<close> (under \<open>b.clientsMu.RLock()\<close>): one \<open>Send\<close> per registered connection;
  an error is logged and the loop goes on.
\<close>

fun Broadcast_range :: "conn list \<Rightarrow> string \<Rightarrow> world \<Rightarrow> world" where
  "Broadcast_range [] line w = w"
| "Broadcast_range (client # rest) line w =
     (case JSON_Send client (line_message line) w of
        (Some e, w') \<Rightarrow>
          Broadcast_range rest line (w'\<lparr>logged := logged w' @ [''Error sending to client: '' @ e]\<rparr>)
      | (None, w') \<Rightarrow> Broadcast_range rest line w')"

definition Broadcast :: "string \<Rightarrow> world \<Rightarrow> world" where
  "Broadcast line w = Broadcast_range (map fst (clients (buf w))) line w"

text \<open>\<open>AddLine\<close>: the critical section, then the broadcast.\<close>

definition AddLine :: "string \<Rightarrow> world \<Rightarrow> panic + world" where
  "AddLine line w =
     (case AddLine_locked line (buf w) of
        Inl p \<Rightarrow> Inl p
      | Inr b \<Rightarrow> Inr (Broadcast line (w\<lparr>buf := b\<rparr>)))"

text \<open>
  \<open>SendHistoryToClient\<close>: the copy returned by \<open>GetLines\<close> is sent line by line; the
  result of \<open>Send\<close> is dropped.
\<close>

fun SendHistory_range :: "string list \<Rightarrow> conn \<Rightarrow> world \<Rightarrow> world" where
  "SendHistory_range [] ws w = w"
| "SendHistory_range (line # rest) ws w =
     SendHistory_range rest ws (snd (JSON_Send ws (line_message line) w))"

definition SendHistoryToClient :: "conn \<Rightarrow> world \<Rightarrow> world" where
  "SendHistoryToClient ws w = SendHistory_range (GetLines (buf w)) ws w"

text \<open>The critical section of \<open>AddClient\<close> (under \<open>b.clientsMu.Lock()\<close>).\<close>

definition AddClient_locked :: "conn \<Rightarrow> OutputBuffer \<Rightarrow> OutputBuffer" where
  "AddClient_locked ws b = b\<lparr>clients := AList.update ws True (clients b)\<rparr>"

definition AddClient :: "conn \<Rightarrow> world \<Rightarrow> world" where
  "AddClient ws w = SendHistoryToClient ws (w\<lparr>buf := AddClient_locked ws (buf w)\<rparr>)"

text \<open>\<open>RemoveClient\<close> (under \<open>b.clientsMu.Lock()\<close>): \<open>delete(b.clients, ws)\<close>.\<close>

definition RemoveClient_locked :: "conn \<Rightarrow> OutputBuffer \<Rightarrow> OutputBuffer" where
  "RemoveClient_locked ws b = b\<lparr>clients := AList.delete ws (clients b)\<rparr>"

definition RemoveClient :: "conn \<Rightarrow> world \<Rightarrow> world" where
  "RemoveClient ws w = w\<lparr>buf := RemoveClient_locked ws (buf w)\<rparr>"

text \<open>A run of \<open>AddLine\<close> calls, one after the other, stopping at the first panic.\<close>

fun AddLines :: "string list \<Rightarrow> world \<Rightarrow> panic + world" where
  "AddLines [] w = Inr w"
| "AddLines (line # rest) w =
     (case AddLine line w of Inl p \<Rightarrow> Inl p | Inr w' \<Rightarrow> AddLines rest w')"

text \<open>
  Construct a buffer, ingest the lines in order, take the snapshot: the setting of the
  eviction property and of its scenario.
\<close>

definition snapshot_after :: "int \<Rightarrow> string list \<Rightarrow> panic + string list" where
  "snapshot_after capacity lines =
     (case NewOutputBuffer capacity of
        Inl p \<Rightarrow> Inl p
      | Inr b \<Rightarrow>
          (case AddLines lines (start_world b (\<lambda>_. None)) of
             Inl p \<Rightarrow> Inl p
           | Inr w \<Rightarrow> Inr (GetLines (buf w))))"

text \<open>The last \<open>n\<close> elements of a list: what a buffer of capacity \<open>n\<close> retains.\<close>

definition keep_last :: "nat \<Rightarrow> 'a list \<Rightarrow> 'a list" where
  "keep_last n xs = drop (length xs - n) xs"

subsection \<open>The line framer: \<open>ProcessStream\<close> over \<open>bufio.Scanner\<close>\<close>

text \<open>
  \<open>bufio\<close> belongs to the Go standard library, not to the repository. The scanner is
  modelled by what its documentation and source fix for \<open>bufio.NewScanner\<close> with the
  default split function \<open>ScanLines\<close> and the default limit \<open>MaxScanTokenSize\<close>: a token
  is the text before the next \<open>\n\<close>, without one trailing \<open>\r\<close>; the bytes after the last
  \<open>\n\<close> form a final token when there are any; a line of \<open>MaxScanTokenSize\<close> bytes or more
  does not fit the buffer and stops the scanner with \<open>ErrTooLong\<close>; a read error other
  than \<open>io.EOF\<close> is what \<open>Err\<close> returns once the bytes read before it are used up.

  A reader is the bytes it delivers and how it ends: \<open>None\<close> for \<open>io.EOF\<close>, \<open>Some e\<close> for a
  read error with message \<open>e\<close>.
\<close>

record reader =
  content :: string
  failure :: "string option"

record Scanner =
  input :: string
  input_err :: "string option"
  tok :: string
  err :: "string option"

definition MaxScanTokenSize :: nat where
  "MaxScanTokenSize = 64 * 1024"

definition ErrTooLong :: string where
  "ErrTooLong = ''bufio.Scanner: token too long''"

definition NewScanner :: "reader \<Rightarrow> Scanner" where
  "NewScanner r = \<lparr>input = content r, input_err = failure r, tok = [], err = None\<rparr>"

definition dropCR :: "string \<Rightarrow> string" where
  "dropCR data = (if data \<noteq> [] \<and> last data = CHR 0x0D then butlast data else data)"

definition Scan :: "Scanner \<Rightarrow> bool \<times> Scanner" where
  "Scan s =
     (let line = takeWhile (\<lambda>c. c \<noteq> CHR 0x0A) (input s)
      in if MaxScanTokenSize \<le> length line then (False, s\<lparr>err := Some ErrTooLong\<rparr>)
         else if CHR 0x0A \<in> set (input s)
           then (True, s\<lparr>tok := dropCR line, input := drop (Suc (length line)) (input s)\<rparr>)
         else if input s = [] then (False, s\<lparr>err := input_err s\<rparr>)
         else (True, s\<lparr>tok := dropCR (input s), input := []\<rparr>))"

definition Text :: "Scanner \<Rightarrow> string" where
  "Text s = tok s"

definition Err :: "Scanner \<Rightarrow> string option" where
  "Err s = err s"

text \<open>\<open>fmt.Sprintf("[%s] %s", prefix, line)\<close>, applied when the prefix is not empty.\<close>

definition with_prefix :: "string \<Rightarrow> string \<Rightarrow> string" where
  "with_prefix prefix line = (if prefix \<noteq> [] then ''['' @ prefix @ ''] '' @ line else line)"

text \<open>The loop \<open>for scanner.Scan() { ... b.AddLine(line) }\<close> of \<open>ProcessStream\<close>.\<close>

function ProcessStream_loop :: "Scanner \<Rightarrow> string \<Rightarrow> world \<Rightarrow> panic + Scanner \<times> world" where
  "ProcessStream_loop scanner prefix w =
     (if fst (Scan scanner) then
        (case AddLine (with_prefix prefix (Text (snd (Scan scanner)))) w of
           Inl p \<Rightarrow> Inl p
         | Inr w' \<Rightarrow> ProcessStream_loop (snd (Scan scanner)) prefix w')
      else Inr (snd (Scan scanner), w))"
  by pat_completeness auto
termination
  by (relation "measure (\<lambda>(scanner, prefix, w). length (input scanner))")
     (auto simp: Scan_def Let_def split: if_splits)

definition ProcessStream :: "reader \<Rightarrow> string \<Rightarrow> world \<Rightarrow> panic + world" where
  "ProcessStream r prefix w =
     (case ProcessStream_loop (NewScanner r) prefix w of
        Inl p \<Rightarrow> Inl p
      | Inr (scanner, w') \<Rightarrow>
          (case Err scanner of
             Some e \<Rightarrow> AddLine (''[ERROR] Scanner error: '' @ e) w'
           | None \<Rightarrow> Inr w'))"

text \<open>
  What the scanner by itself yields on a reader: the tokens of the successful \<open>Scan\<close>
  calls and the scanner as the first unsuccessful call leaves it.
\<close>

function Scanner_run :: "Scanner \<Rightarrow> string list \<times> Scanner" where
  "Scanner_run scanner =
     (if fst (Scan scanner) then
        (Text (snd (Scan scanner)) # fst (Scanner_run (snd (Scan scanner))),
         snd (Scanner_run (snd (Scan scanner))))
      else ([], snd (Scan scanner)))"
  by pat_completeness auto
termination
  by (relation "measure (\<lambda>scanner. length (input scanner))")
     (auto simp: Scan_def Let_def split: if_splits)

declare ProcessStream_loop.simps [simp del] Scanner_run.simps [simp del]

text \<open>
  The lines of a byte input in the words of the specification: the input is cut at every
  \<open>\n\<close>, a part after the last \<open>\n\<close> is a line of its own when it is not empty, and a line
  is stripped of its terminator (the \<open>\n\<close> and one carriage return before it).
\<close>

fun split_lines :: "string \<Rightarrow> string \<Rightarrow> string list" where
  "split_lines cur [] = (if cur = [] then [] else [cur])"
| "split_lines cur (c # cs) =
     (if c = CHR 0x0A then cur # split_lines [] cs else split_lines (cur @ [c]) cs)"

definition strip_cr :: "string \<Rightarrow> string" where
  "strip_cr l = (case rev l of [] \<Rightarrow> [] | c # r \<Rightarrow> if c = CHR 0x0D then rev r else l)"

definition text_lines :: "string \<Rightarrow> string list" where
  "text_lines data = map strip_cr (split_lines [] data)"

text \<open>
  The same in closed form, as the proofs below establish: the scanner yields the lines
  before the first one that reaches \<open>MaxScanTokenSize\<close>, and ends with \<open>ErrTooLong\<close> if
  there is such a line, with the reader's own end otherwise.
\<close>

definition scanned_lines :: "string \<Rightarrow> string list" where
  "scanned_lines data =
     map dropCR (takeWhile (\<lambda>t. length t < MaxScanTokenSize) (split_lines [] data))"

definition scanned_err :: "reader \<Rightarrow> string option" where
  "scanned_err r =
     (if \<forall>t \<in> set (split_lines [] (content r)). length t < MaxScanTokenSize
      then failure r else Some ErrTooLong)"

subsection \<open>The viewer's classification of a line (the script served by \<open>serveHTML\<close>)\<close>

fun str_includes :: "string \<Rightarrow> string \<Rightarrow> bool" where
  "str_includes [] needle = (needle = [])"
| "str_includes (c # cs) needle = (take (length needle) (c # cs) = needle \<or> str_includes cs needle)"

definition className :: "string \<Rightarrow> string option" where
  "className line =
     (if str_includes line ''[stdout]'' then Some ''stdout''
      else if str_includes line ''[stderr]'' then Some ''stderr''
      else if str_includes line ''[SYSTEM]'' then Some ''system''
      else None)"

subsection \<open>\<open>ExecuteCommand\<close>\<close>

text \<open>
  \<open>strings.Fields\<close> (Go standard library) cuts a string around each run of white space
  as \<open>unicode.IsSpace\<close> defines it and returns no field for a string of white space only.
  On the bytes of a Go string the white space characters are the following UTF-8
  encodings (U+0009 to U+000D, U+0020, U+0085, U+00A0, U+1680, U+2000 to U+200A, U+2028,
  U+2029, U+202F, U+205F and U+3000). None of them begins inside the encoding of another
  character, since each starts with a byte that is not a continuation byte.
\<close>

definition unicode_spaces :: "string list" where
  "unicode_spaces =
     [[CHR 0x09], [CHR 0x0A], [CHR 0x0B], [CHR 0x0C], [CHR 0x0D], [CHR 0x20],
      [CHR 0xC2, CHR 0x85], [CHR 0xC2, CHR 0xA0],
      [CHR 0xE1, CHR 0x9A, CHR 0x80],
      [CHR 0xE2, CHR 0x80, CHR 0x80], [CHR 0xE2, CHR 0x80, CHR 0x81],
      [CHR 0xE2, CHR 0x80, CHR 0x82], [CHR 0xE2, CHR 0x80, CHR 0x83],
      [CHR 0xE2, CHR 0x80, CHR 0x84], [CHR 0xE2, CHR 0x80, CHR 0x85],
      [CHR 0xE2, CHR 0x80, CHR 0x86], [CHR 0xE2, CHR 0x80, CHR 0x87],
      [CHR 0xE2, CHR 0x80, CHR 0x88], [CHR 0xE2, CHR 0x80, CHR 0x89],
      [CHR 0xE2, CHR 0x80, CHR 0x8A],
      [CHR 0xE2, CHR 0x80, CHR 0xA8], [CHR 0xE2, CHR 0x80, CHR 0xA9],
      [CHR 0xE2, CHR 0x80, CHR 0xAF],
      [CHR 0xE2, CHR 0x81, CHR 0x9F],
      [CHR 0xE3, CHR 0x80, CHR 0x80]]"

text \<open>The width in bytes of the white space character a string starts with, 0 if none.\<close>

definition space_width :: "string \<Rightarrow> nat" where
  "space_width s =
     (case find (\<lambda>enc. take (length enc) s = enc) unicode_spaces of
        None \<Rightarrow> 0
      | Some enc \<Rightarrow> length enc)"

text \<open>
  The fields of a string: \<open>skip\<close> counts the bytes still to pass of the white space
  character being read, \<open>field\<close> is the field collected so far.
\<close>

fun Fields_from :: "nat \<Rightarrow> string \<Rightarrow> string \<Rightarrow> string list" where
  "Fields_from skip field [] = (if field = [] then [] else [field])"
| "Fields_from skip field (c # cs) =
     (if 0 < skip then Fields_from (skip - 1) field cs
      else if 0 < space_width (c # cs)
        then (if field = [] then [] else [field]) @ Fields_from (space_width (c # cs) - 1) [] cs
      else Fields_from 0 (field @ [c]) cs)"

definition Fields :: "string \<Rightarrow> string list" where
  "Fields s = Fields_from 0 [] s"

text \<open>
  What the operating system does with \<open>exec.CommandContext(ctx, parts[0], parts[1:]...)\<close>:
  whether creating a pipe or starting the process fails, the lines that the two
  \<open>ProcessStream\<close> goroutines have passed to \<open>AddLine\<close> by the time \<open>cmd.Wait()\<close> returns
  (in the order of these calls), and the result of \<open>cmd.Wait()\<close>.
\<close>

record process =
  stdout_pipe_err :: "string option"
  stderr_pipe_err :: "string option"
  start_err :: "string option"
  streamed :: "string list"
  wait_err :: "string option"

definition ExecuteCommand ::
  "(string \<Rightarrow> string list \<Rightarrow> process) \<Rightarrow> string \<Rightarrow> world \<Rightarrow> panic + string option \<times> world" where
  "ExecuteCommand os command w =
     (let parts = Fields command
      in if length parts = 0 then Inr (Some ''empty command'', w)
         else
           (let cmd = os (hd parts) (tl parts)
            in case stdout_pipe_err cmd of
                 Some e \<Rightarrow> Inr (Some (''failed to create stdout pipe: '' @ e), w)
               | None \<Rightarrow>
             (case stderr_pipe_err cmd of
                 Some e \<Rightarrow> Inr (Some (''failed to create stderr pipe: '' @ e), w)
               | None \<Rightarrow>
             (case start_err cmd of
                 Some e \<Rightarrow> Inr (Some (''failed to start command: '' @ e), w)
               | None \<Rightarrow>
             (case AddLines (streamed cmd) w of
                 Inl p \<Rightarrow> Inl p
               | Inr w1 \<Rightarrow>
             (case wait_err cmd of
                 Some e \<Rightarrow>
                   (case AddLine (''[SYSTEM] Command exited with error: '' @ e) w1 of
                      Inl p \<Rightarrow> Inl p
                    | Inr w2 \<Rightarrow> Inr (Some e, w2))
               | None \<Rightarrow>
                   (case AddLine ''[SYSTEM] Command completed successfully'' w1 of
                      Inl p \<Rightarrow> Inl p
                    | Inr w2 \<Rightarrow> Inr (None, w2))))))))"

subsection \<open>\<open>WSHandler\<close>\<close>




subsection \<open>Goroutines: interleavings of the critical sections\<close>

text \<open>
  \<open>AddLine\<close> and \<open>AddClient\<close> are called from different goroutines and each releases its
  lock between its two parts, so other calls can run in between. A schedule is a list of
  steps, each of which the program runs without interruption by a step it could
  conflict with:
  \<^item> \<open>DoAddLineLocked line\<close>: the critical section of \<open>AddLine(line)\<close> under \<open>b.mu\<close>;
  \<^item> \<open>DoBroadcast line\<close>: the call \<open>b.Broadcast(line)\<close> that ends \<open>AddLine(line)\<close>, under
    the read lock of \<open>b.clientsMu\<close> (no registration can happen during it; seen from one
    connection it is the single \<open>Send\<close> to that connection);
  \<^item> \<open>DoAddClientLocked ws\<close>: the critical section of \<open>AddClient(ws)\<close> under \<open>b.clientsMu\<close>;
  \<^item> \<open>DoGetLines ws\<close>: the call of \<open>GetLines\<close> that begins \<open>SendHistoryToClient(ws)\<close>;
  \<^item> \<open>DoSend ws\<close>: one iteration of the loop of \<open>SendHistoryToClient(ws)\<close>.
  The state keeps, besides the world, where every call stands: the lines appended whose
  broadcast has not run yet, and for each connection how far its \<open>AddClient\<close> has come
  (with the lines of its copy that are still to send). A step that the program cannot
  take in a state is \<open>NotEnabled\<close>.
\<close>

datatype join_pc = NotJoined | Registered | Replaying "string list"

record sched =
  wld :: world
  unsent :: "string list"
  join :: "conn \<Rightarrow> join_pc"

datatype step =
    DoAddLineLocked string
  | DoBroadcast string
  | DoAddClientLocked conn
  | DoGetLines conn
  | DoSend conn

datatype fault = Panicked panic | NotEnabled

definition start_sched :: "world \<Rightarrow> sched" where
  "start_sched w = \<lparr>wld = w, unsent = [], join = (\<lambda>_. NotJoined)\<rparr>"

fun exec_step :: "step \<Rightarrow> sched \<Rightarrow> fault + sched" where
  "exec_step (DoAddLineLocked line) s =
     (case AddLine_locked line (buf (wld s)) of
        Inl p \<Rightarrow> Inl (Panicked p)
      | Inr b \<Rightarrow> Inr (s\<lparr>wld := (wld s)\<lparr>buf := b\<rparr>, unsent := unsent s @ [line]\<rparr>))"
| "exec_step (DoBroadcast line) s =
     (if line \<in> set (unsent s)
      then Inr (s\<lparr>wld := Broadcast line (wld s), unsent := remove1 line (unsent s)\<rparr>)
      else Inl NotEnabled)"
| "exec_step (DoAddClientLocked ws) s =
     (case join s ws of
        NotJoined \<Rightarrow>
          Inr (s\<lparr>wld := (wld s)\<lparr>buf := AddClient_locked ws (buf (wld s))\<rparr>,
                 join := (join s)(ws := Registered)\<rparr>)
      | _ \<Rightarrow> Inl NotEnabled)"
| "exec_step (DoGetLines ws) s =
     (case join s ws of
        Registered \<Rightarrow> Inr (s\<lparr>join := (join s)(ws := Replaying (GetLines (buf (wld s))))\<rparr>)
      | _ \<Rightarrow> Inl NotEnabled)"
| "exec_step (DoSend ws) s =
     (case join s ws of
        Replaying (line # rest) \<Rightarrow>
          Inr (s\<lparr>wld := snd (JSON_Send ws (line_message line) (wld s)),
                 join := (join s)(ws := Replaying rest)\<rparr>)
      | _ \<Rightarrow> Inl NotEnabled)"

fun exec :: "step list \<Rightarrow> sched \<Rightarrow> fault + sched" where
  "exec [] s = Inr s"
| "exec (e # es) s = (case exec_step e s of Inl f \<Rightarrow> Inl f | Inr s' \<Rightarrow> exec es s')"


text \<open>
  A schedule has run to its end for a connection when it is executable, the
  \<open>AddClient\<close> call of the connection has sent its whole copy, and every \<open>AddLine\<close> call
  has done its broadcast.
\<close>

definition completed :: "step list \<Rightarrow> sched \<Rightarrow> conn \<Rightarrow> bool" where
  "completed es s ws =
     (case exec es s of
        Inl f \<Rightarrow> False
      | Inr s' \<Rightarrow> join s' ws = Replaying [] \<and> unsent s' = [])"

text \<open>How many times a connection has received a line at the end of a schedule.\<close>

definition times_received :: "step list \<Rightarrow> sched \<Rightarrow> conn \<Rightarrow> string \<Rightarrow> nat" where
  "times_received es s ws line =
     (case exec es s of
        Inl f \<Rightarrow> 0
      | Inr s' \<Rightarrow> count_list (delivered (wld s') ws) (line_message line))"



fun broadcasts :: "step list \<Rightarrow> string list" where
  "broadcasts [] = []"
| "broadcasts (DoBroadcast line # es) = line # broadcasts es"
| "broadcasts (e # es) = broadcasts es"

fun snapshot_at :: "conn \<Rightarrow> step list \<Rightarrow> sched \<Rightarrow> string list" where
  "snapshot_at c [] s = []"
| "snapshot_at c (e # es) s =
     (if e = DoGetLines c then GetLines (buf (wld s))
      else case exec_step e s of Inl f \<Rightarrow> [] | Inr s' \<Rightarrow> snapshot_at c es s')"


section \<open>Properties\<close>

subsection \<open>The replay buffer\<close>

lemma buf_JSON_Send: "buf (snd (JSON_Send ws v w)) = buf w"
  by (simp add: JSON_Send_def Let_def split: option.splits)

lemma buf_Broadcast_range: "buf (Broadcast_range cs line w) = buf w"
proof (induction cs arbitrary: w)
  case Nil
  show ?case by simp
next
  case (Cons c cs)
  show ?case
    by (simp add: Cons.IH JSON_Send_def Let_def split: option.splits)
qed

lemma buf_Broadcast: "buf (Broadcast line w) = buf w"
  by (simp add: Broadcast_def buf_Broadcast_range)

lemma length_keep_last: "length (keep_last n xs) \<le> n"
  by (simp add: keep_last_def)

lemma keep_last_all: "length xs \<le> n \<Longrightarrow> keep_last n xs = xs"
  by (simp add: keep_last_def)

lemma keep_last_append: "keep_last n (keep_last n zs @ xs) = keep_last n (zs @ xs)"
proof (cases "length zs \<le> n")
  case True
  then show ?thesis by (simp add: keep_last_def)
next
  case False
  then have n: "n < length zs" by simp
  have "keep_last n (keep_last n zs @ xs) = drop (length xs) (drop (length zs - n) zs @ xs)"
    using n by (simp add: keep_last_def)
  also have "\<dots> = drop (length xs + (length zs - n)) zs @ drop (length xs - n) xs"
    using n by simp
  also have "\<dots> = keep_last n (zs @ xs)"
    using n by (simp add: keep_last_def add.commute)
  finally show ?thesis .
qed

text \<open>
  With a positive capacity the critical section of \<open>AddLine\<close> never panics and keeps the
  last \<open>maxBufferSize\<close> lines.
\<close>

lemma AddLine_locked_positive:
  assumes "0 < maxBufferSize b" and "int (length (recentLines b)) \<le> maxBufferSize b"
  shows "AddLine_locked line b =
           Inr (b\<lparr>recentLines := keep_last (nat (maxBufferSize b)) (recentLines b @ [line])\<rparr>)"
proof (cases "maxBufferSize b \<le> int (length (recentLines b))")
  case True
  with assms have len: "length (recentLines b) = nat (maxBufferSize b)" by linarith
  with assms obtain x rest where xs: "recentLines b = x # rest"
    by (cases "recentLines b") auto
  with len True show ?thesis
    by (simp add: AddLine_locked_def keep_last_def Suc_diff_le)
next
  case False
  then have "Suc (length (recentLines b)) - nat (maxBufferSize b) = 0" by linarith
  with False show ?thesis
    by (simp add: AddLine_locked_def keep_last_def)
qed

lemma AddLines_positive:
  assumes "0 < maxBufferSize (buf w)"
    and "int (length (recentLines (buf w))) \<le> maxBufferSize (buf w)"
  shows "\<exists>w'. AddLines xs w = Inr w' \<and>
           maxBufferSize (buf w') = maxBufferSize (buf w) \<and>
           clients (buf w') = clients (buf w) \<and>
           recentLines (buf w') =
             keep_last (nat (maxBufferSize (buf w))) (recentLines (buf w) @ xs)"
  using assms
proof (induction xs arbitrary: w)
  case Nil
  then show ?case by (simp add: keep_last_all)
next
  case (Cons x xs)
  define n where "n = nat (maxBufferSize (buf w))"
  define b where "b = (buf w)\<lparr>recentLines := keep_last n (recentLines (buf w) @ [x])\<rparr>"
  define w1 where "w1 = Broadcast x (w\<lparr>buf := b\<rparr>)"
  have step: "AddLine x w = Inr w1"
    using Cons.prems by (simp add: AddLine_def AddLine_locked_positive w1_def b_def n_def)
  have bw1: "buf w1 = b" by (simp add: w1_def buf_Broadcast)
  have mx: "maxBufferSize b = maxBufferSize (buf w)" and cl: "clients b = clients (buf w)"
    and rl: "recentLines b = keep_last n (recentLines (buf w) @ [x])"
    by (simp_all add: b_def)
  have pos: "0 < maxBufferSize (buf w1)" using Cons.prems by (simp add: bw1 mx)
  have "length (recentLines b) \<le> n" unfolding rl by (rule length_keep_last)
  then have le: "int (length (recentLines (buf w1))) \<le> maxBufferSize (buf w1)"
    using Cons.prems(1) by (simp add: bw1 mx n_def)
  from Cons.IH [OF pos le] obtain w' where w': "AddLines xs w1 = Inr w'"
    "maxBufferSize (buf w') = maxBufferSize (buf w1)"
    "clients (buf w') = clients (buf w1)"
    "recentLines (buf w') = keep_last (nat (maxBufferSize (buf w1))) (recentLines (buf w1) @ xs)"
    by blast
  have "recentLines (buf w') = keep_last n (keep_last n (recentLines (buf w) @ [x]) @ xs)"
    using w'(4) by (simp add: bw1 mx rl n_def)
  also have "\<dots> = keep_last n (recentLines (buf w) @ x # xs)"
    using keep_last_append [of n "recentLines (buf w) @ [x]" xs] by simp
  finally have "recentLines (buf w') = keep_last n (recentLines (buf w) @ x # xs)" .
  with w' step show ?case by (simp add: bw1 mx cl n_def)
qed

text \<open>
  Eviction for every positive capacity that \<open>make\<close> accepts: after \<open>capacity + K\<close> lines
  the snapshot is the last \<open>capacity\<close> of them, in order. Scenario A is the instance with
  capacity 3.
\<close>

lemma snapshot_after_positive:
  assumes "0 < capacity" and "capacity \<le> maxSliceCap" and "length xs = nat capacity + K"
  shows "snapshot_after capacity xs = Inr (drop K xs)"
proof -
  let ?b = "\<lparr>recentLines = [], maxBufferSize = capacity, clients = []\<rparr>"
  let ?w = "start_world ?b (\<lambda>_. None)"
  have "0 < maxBufferSize (buf ?w)" "int (length (recentLines (buf ?w))) \<le> maxBufferSize (buf ?w)"
    using assms(1) by (simp_all add: start_world_def)
  from AddLines_positive [OF this, of xs] obtain w' where
    "AddLines xs ?w = Inr w'"
    "recentLines (buf w') = keep_last (nat capacity) xs"
    by (auto simp: start_world_def)
  with assms show ?thesis
    by (simp add: snapshot_after_def NewOutputBuffer_def GetLines_def keep_last_def)
qed

lemma scenario_A: "snapshot_after 3 [''a'', ''b'', ''c'', ''d''] = Inr [''b'', ''c'', ''d'']"
  using snapshot_after_positive [of 3 "[''a'', ''b'', ''c'', ''d'']" 1]
  by (simp add: maxSliceCap_def)

text \<open>
  C3 (eviction, for every capacity). The property holds for every positive capacity
  with which a buffer can be constructed (\<open>snapshot_after_positive\<close>), but not for capacity 0, which the specification allows:
  there the first append panics at \<open>b.recentLines[1:]\<close>, so that after \<open>0 + 1\<close> lines
  there is no snapshot at all, where the claim asks for the empty one.
\<close>

theorem eviction_capacity_zero_panics:
  "snapshot_after 0 [''a''] = Inl SliceBoundsOutOfRange"
  by (simp add: snapshot_after_def NewOutputBuffer_def maxSliceCap_def start_world_def
      AddLine_def AddLine_locked_def)

text \<open>
  C4 (append never fails, capacity 0 included). A buffer constructed with capacity 0 is
  empty and has \<open>len(recentLines) >= maxBufferSize\<close>, so \<open>AddLine\<close> takes the branch that
  slices \<open>recentLines[1:]\<close> and panics, for every line and whatever the transport does.
\<close>

theorem AddLine_capacity_zero_panics:
  "NewOutputBuffer 0 = Inr \<lparr>recentLines = [], maxBufferSize = 0, clients = []\<rparr> \<and>
   AddLine line (start_world \<lparr>recentLines = [], maxBufferSize = 0, clients = []\<rparr> errs)
     = Inl SliceBoundsOutOfRange"
  by (simp add: NewOutputBuffer_def maxSliceCap_def start_world_def AddLine_def
      AddLine_locked_def)

subsection \<open>The transport: what a send changes\<close>

lemma send_err_JSON_Send: "send_err (snd (JSON_Send ws v w)) = send_err w"
  by (simp add: JSON_Send_def Let_def split: option.splits)

lemma delivered_JSON_Send:
  "delivered (snd (JSON_Send ws v w)) c =
     (if c = ws \<and> send_err w ws = None then delivered w c @ [v] else delivered w c)"
  by (simp add: JSON_Send_def Let_def split: option.splits)

lemma send_err_Broadcast_range: "send_err (Broadcast_range cs line w) = send_err w"
proof (induction cs arbitrary: w)
  case Nil
  show ?case by simp
next
  case (Cons a cs)
  show ?case by (simp add: Cons.IH JSON_Send_def Let_def split: option.splits)
qed

lemma attempts_Broadcast_range:
  "attempts (Broadcast_range cs line w) = attempts w @ map (\<lambda>c. (c, line_message line)) cs"
proof (induction cs arbitrary: w)
  case Nil
  show ?case by simp
next
  case (Cons a cs)
  show ?case by (simp add: Cons.IH JSON_Send_def Let_def split: option.splits)
qed

text \<open>Every failed send of a broadcast leaves one line in the log, and nothing else does.\<close>

lemma logged_Broadcast_range:
  "logged (Broadcast_range cs line w) =
     logged w @ concat (map (\<lambda>c. case send_err w c of None \<Rightarrow> []
                                   | Some e \<Rightarrow> [''Error sending to client: '' @ e]) cs)"
proof (induction cs arbitrary: w)
  case Nil
  show ?case by simp
next
  case (Cons a cs)
  show ?case by (simp add: Cons.IH JSON_Send_def Let_def split: option.splits)
qed

lemma delivered_Broadcast_range:
  "delivered (Broadcast_range cs line w) c =
     delivered w c @
       (if send_err w c = None then replicate (count_list cs c) (line_message line) else [])"
proof (induction cs arbitrary: w)
  case Nil
  show ?case by simp
next
  case (Cons a cs)
  show ?case
    by (simp add: Cons.IH JSON_Send_def Let_def replicate_app_Cons_same split: option.splits)
qed

lemma count_list_distinct:
  "distinct xs \<Longrightarrow> count_list xs x = (if x \<in> set xs then 1 else 0)"
  by (induction xs) auto

text \<open>
  The keys of a Go map are distinct. Then a broadcast reaches a connection exactly when
  it is registered and healthy, whatever the order of the keys and whatever happens to
  the other connections.
\<close>

lemma delivered_Broadcast:
  assumes "distinct (map fst (clients (buf w)))"
  shows "delivered (Broadcast line w) c =
     delivered w c @
       (if c \<in> fst ` set (clients (buf w)) \<and> send_err w c = None then [line_message line] else [])"
  using assms
  by (simp add: Broadcast_def delivered_Broadcast_range count_list_distinct)

lemma attempts_SendHistory_range:
  "attempts (SendHistory_range ls ws w) = attempts w @ map (\<lambda>l. (ws, line_message l)) ls"
proof (induction ls arbitrary: w)
  case Nil
  show ?case by simp
next
  case (Cons a ls)
  show ?case by (simp add: Cons.IH JSON_Send_def Let_def split: option.splits)
qed

lemma buf_SendHistory_range: "buf (SendHistory_range ls ws w) = buf w"
  by (induction ls arbitrary: w) (simp_all add: buf_JSON_Send)

lemma send_err_SendHistory_range: "send_err (SendHistory_range ls ws w) = send_err w"
  by (induction ls arbitrary: w) (simp_all add: send_err_JSON_Send)

lemma delivered_SendHistory_range:
  "delivered (SendHistory_range ls ws w) c =
     delivered w c @ (if c = ws \<and> send_err w ws = None then map line_message ls else [])"
  by (induction ls arbitrary: w) (simp_all add: delivered_JSON_Send send_err_JSON_Send)

lemma clients_AddClient: "clients (buf (AddClient ws w)) = AList.update ws True (clients (buf w))"
  by (simp add: AddClient_def SendHistoryToClient_def buf_SendHistory_range AddClient_locked_def)

text \<open>The operations of the registry keep the keys distinct.\<close>

lemma distinct_clients_AddClient_locked:
  "distinct (map fst (clients b)) \<Longrightarrow> distinct (map fst (clients (AddClient_locked ws b)))"
  by (simp add: AddClient_locked_def AList.distinct_update)

lemma distinct_clients_RemoveClient_locked:
  "distinct (map fst (clients b)) \<Longrightarrow> distinct (map fst (clients (RemoveClient_locked ws b)))"
  by (simp add: RemoveClient_locked_def AList.distinct_delete)

subsection \<open>What is sent for a line\<close>

text \<open>
  C2 (the triple of source, text and sequence number), as the code has it. For every
  line sent to a subscriber, live by \<open>Broadcast\<close> or replayed by \<open>SendHistoryToClient\<close>,
  the value handed to the transport is the object with the single field \<open>line\<close> that
  holds the text of the line as it was ingested. The source is part of that text only
  (the prefix in brackets put there by the framer), and there is no sequence number: a
  broadcast sends the line once to every registered connection, a replay sends the
  retained lines in the order of the buffer.
\<close>

theorem wire_format:
  "attempts (Broadcast line w)
     = attempts w @ map (\<lambda>c. (c, [(''line'', line)])) (map fst (clients (buf w))) \<and>
   attempts (SendHistoryToClient ws w)
     = attempts w @ map (\<lambda>l. (ws, [(''line'', l)])) (GetLines (buf w))"
  using attempts_Broadcast_range [of "map fst (clients (buf w))" line w]
    attempts_SendHistory_range [of "GetLines (buf w)" ws w]
  by (simp add: Broadcast_def SendHistoryToClient_def line_message_def)

text \<open>
  The claim as stated fails: the message that a subscriber receives for the ingested
  line \<open>[stdout] hi\<close> has the field \<open>line\<close> and neither a sequence number nor a source.
\<close>

theorem message_has_no_sequence:
  "(case AddLine ''[stdout] hi''
           (AddClient 1 (start_world \<lparr>recentLines = [], maxBufferSize = 2, clients = []\<rparr> (\<lambda>_. None))) of
      Inl p \<Rightarrow> []
    | Inr w \<Rightarrow> delivered w 1) = [[(''line'', ''[stdout] hi'')]] \<and>
   map_of [(''line'', ''[stdout] hi'')] ''sequence'' = None \<and>
   map_of [(''line'', ''[stdout] hi'')] ''source'' = None"
  by (simp add: AddLine_def AddLine_locked_def AddClient_def AddClient_locked_def
      SendHistoryToClient_def GetLines_def start_world_def Broadcast_def JSON_Send_def
      line_message_def)

subsection \<open>Fan-out and the registry\<close>




text \<open>Whatever the world is when the deferred call runs, it unregisters the connection.\<close>

lemma RemoveClient_removes: "ws \<notin> fst ` set (clients (buf (RemoveClient ws w)))"
  by (simp add: RemoveClient_def RemoveClient_locked_def AList.delete_notin_dom)






lemma filter_key_distinct:
  assumes "distinct ks" and "k \<in> set ks"
  shows "filter (\<lambda>a. fst a = k) (map (\<lambda>c. (c, v)) ks) = [(k, v)]"
  using assms by (induction ks) (auto simp: filter_empty_conv)

text \<open>
  C6 (idempotent registration and unregistration). In a registry with distinct keys,
  registering \<open>ws\<close> a second time leaves the registry as the first registration made it,
  with one entry for \<open>ws\<close>, and a later broadcast calls \<open>Send\<close> for \<open>ws\<close> exactly once;
  unregistering a connection that is not registered changes nothing at all.
\<close>

theorem registration_idempotent:
  assumes "distinct (map fst (clients (buf w)))"
  shows "clients (buf (AddClient ws (AddClient ws w))) = clients (buf (AddClient ws w)) \<and>
         count_list (map fst (clients (buf (AddClient ws (AddClient ws w))))) ws = 1 \<and>
         filter (\<lambda>a. fst a = ws)
           (drop (length (attempts (AddClient ws (AddClient ws w))))
              (attempts (Broadcast line (AddClient ws (AddClient ws w)))))
           = [(ws, line_message line)] \<and>
         (absent \<notin> fst ` set (clients (buf w)) \<longrightarrow> RemoveClient absent w = w)"
proof -
  let ?w2 = "AddClient ws (AddClient ws w)"
  have cl: "clients (buf ?w2) = AList.update ws True (clients (buf w))"
    by (simp add: clients_AddClient)
  have d: "distinct (map fst (clients (buf ?w2)))"
    unfolding cl using assms by (rule AList.distinct_update)
  have m: "ws \<in> set (map fst (clients (buf ?w2)))"
    unfolding cl by (simp add: AList.dom_update)
  have one: "count_list (map fst (clients (buf ?w2))) ws = 1"
    using d m by (simp add: count_list_distinct)
  have att: "filter (\<lambda>a. fst a = ws) (drop (length (attempts ?w2)) (attempts (Broadcast line ?w2)))
      = [(ws, line_message line)]"
    using filter_key_distinct [OF d m, of "line_message line"]
    by (simp add: Broadcast_def attempts_Broadcast_range)
  have rm: "absent \<notin> fst ` set (clients (buf w)) \<longrightarrow> RemoveClient absent w = w"
    by (simp add: RemoveClient_def RemoveClient_locked_def)
  from one att rm show ?thesis
    by (simp add: clients_AddClient)
qed

text \<open>
  Connection 1 is registered; connection 2 registers twice and is sent the next line
  once; connection 3 is not registered and its removal is a no-op.
\<close>

theorem registration_idempotent_witness:
  "distinct (map fst (clients (buf (start_world \<lparr>recentLines = [], maxBufferSize = 5,
       clients = [(1, True)]\<rparr> (\<lambda>_. None))))) \<and>
   3 \<notin> fst ` set (clients (buf (start_world \<lparr>recentLines = [], maxBufferSize = 5,
       clients = [(1, True)]\<rparr> (\<lambda>_. None)))) \<and>
   clients (buf (AddClient 2 (AddClient 2 (start_world \<lparr>recentLines = [], maxBufferSize = 5,
       clients = [(1, True)]\<rparr> (\<lambda>_. None))))) = [(1, True), (2, True)] \<and>
   filter (\<lambda>a. fst a = 2)
     (drop (length (attempts (AddClient 2 (AddClient 2 (start_world \<lparr>recentLines = [],
              maxBufferSize = 5, clients = [(1, True)]\<rparr> (\<lambda>_. None))))))
        (attempts (Broadcast ''l'' (AddClient 2 (AddClient 2 (start_world \<lparr>recentLines = [],
              maxBufferSize = 5, clients = [(1, True)]\<rparr> (\<lambda>_. None)))))))
     = [(2, [(''line'', ''l'')])] \<and>
   RemoveClient 3 (start_world \<lparr>recentLines = [], maxBufferSize = 5, clients = [(1, True)]\<rparr> (\<lambda>_. None))
     = start_world \<lparr>recentLines = [], maxBufferSize = 5, clients = [(1, True)]\<rparr> (\<lambda>_. None)"
proof -
  let ?w = "start_world \<lparr>recentLines = [], maxBufferSize = 5, clients = [(1, True)]\<rparr> (\<lambda>_. None)"
  have d: "distinct (map fst (clients (buf ?w)))" by (simp add: start_world_def)
  have a: "3 \<notin> fst ` set (clients (buf ?w))" by (simp add: start_world_def)
  have c: "clients (buf (AddClient 2 ?w)) = [(1, True), (2, True)]"
    by (simp add: clients_AddClient start_world_def)
  from registration_idempotent [OF d, of 2 "''l''" 3] d a c show ?thesis
    by (simp add: line_message_def)
qed

subsection \<open>Joining while lines are ingested\<close>

text \<open>
  The schedules agree with the sequential functions: the two steps of an \<open>AddLine\<close> run
  back to back are \<open>AddLine\<close>, and the steps of an \<open>AddClient\<close> run back to back are
  \<open>AddClient\<close>.
\<close>

lemma exec_append:
  "exec (es @ fs) s = (case exec es s of Inl f \<Rightarrow> Inl f | Inr s' \<Rightarrow> exec fs s')"
  by (induction es arbitrary: s) (simp_all split: sum.splits)

lemma exec_AddLine:
  assumes "unsent s = []"
  shows "exec [DoAddLineLocked line, DoBroadcast line] s =
     (case AddLine line (wld s) of
        Inl p \<Rightarrow> Inl (Panicked p)
      | Inr w \<Rightarrow> Inr (s\<lparr>wld := w\<rparr>))"
proof (cases "AddLine_locked line (buf (wld s))")
  case (Inl p)
  then show ?thesis by (simp add: AddLine_def)
next
  case (Inr b)
  have "s\<lparr>wld := Broadcast line ((wld s)\<lparr>buf := b\<rparr>), unsent := []\<rparr>
      = s\<lparr>wld := Broadcast line ((wld s)\<lparr>buf := b\<rparr>)\<rparr>"
    using assms by simp
  with Inr assms show ?thesis by (simp add: AddLine_def)
qed

lemma exec_sends:
  assumes "join s ws = Replaying ls"
  shows "exec (replicate (length ls) (DoSend ws)) s =
           Inr (s\<lparr>wld := SendHistory_range ls ws (wld s), join := (join s)(ws := Replaying [])\<rparr>)"
  using assms
proof (induction ls arbitrary: s)
  case Nil
  then have "(join s)(ws := Replaying []) = join s" by (simp add: fun_upd_idem)
  then show ?case by simp
next
  case (Cons l ls)
  let ?s = "s\<lparr>wld := snd (JSON_Send ws (line_message l) (wld s)),
               join := (join s)(ws := Replaying ls)\<rparr>"
  have "join ?s ws = Replaying ls" by simp
  from Cons.IH [OF this] Cons.prems show ?case by (simp add: fun_upd_def cong: if_cong)
qed

lemma exec_AddClient:
  assumes "join s ws = NotJoined"
  shows "exec (DoAddClientLocked ws # DoGetLines ws #
               replicate (length (recentLines (buf (wld s)))) (DoSend ws)) s =
           Inr (s\<lparr>wld := AddClient ws (wld s), join := (join s)(ws := Replaying [])\<rparr>)"
proof -
  let ?s2 = "s\<lparr>wld := (wld s)\<lparr>buf := AddClient_locked ws (buf (wld s))\<rparr>,
               join := (join s)(ws := Replaying (recentLines (buf (wld s))))\<rparr>"
  have j: "join ?s2 ws = Replaying (recentLines (buf (wld s)))" by simp
  from exec_sends [OF j] assms show ?thesis
    by (simp add: AddClient_def SendHistoryToClient_def GetLines_def AddClient_locked_def)
qed

text \<open>
  Scenario B, where the join does not overlap any ingestion: with capacity 2, after
  \<open>x1\<close> is ingested the subscriber joins, \<open>x2\<close> is ingested, and the subscriber has
  received \<open>x1\<close> once and \<open>x2\<close> once.
\<close>

lemma scenario_B:
  "(case AddLine ''x1'' (start_world \<lparr>recentLines = [], maxBufferSize = 2, clients = []\<rparr> (\<lambda>_. None)) of
      Inl p \<Rightarrow> Inl p
    | Inr w1 \<Rightarrow>
        (case AddLine ''x2'' (AddClient 1 w1) of
           Inl p \<Rightarrow> Inl p
         | Inr w2 \<Rightarrow> Inr (delivered w2 1)))
   = Inr [line_message ''x1'', line_message ''x2'']"
  by (simp add: AddLine_def AddLine_locked_def AddClient_def AddClient_locked_def
      SendHistoryToClient_def GetLines_def start_world_def Broadcast_def JSON_Send_def)

lemma AddLine_world:
  assumes "AddLine line w = Inr w'"
  shows "clients (buf w') = clients (buf w) \<and> send_err w' = send_err w \<and>
         (distinct (map fst (clients (buf w))) \<longrightarrow>
            delivered w' c = delivered w c @
              (if c \<in> fst ` set (clients (buf w)) \<and> send_err w c = None
               then [line_message line] else []))"
proof -
  from assms obtain b where b: "AddLine_locked line (buf w) = Inr b"
    and w': "w' = Broadcast line (w\<lparr>buf := b\<rparr>)"
    by (auto simp: AddLine_def split: sum.splits)
  from b have cl: "clients b = clients (buf w)"
    by (auto simp: AddLine_locked_def split: if_splits list.splits)
  have d: "distinct (map fst (clients (buf w))) \<longrightarrow>
      delivered w' c = delivered w c @
              (if c \<in> fst ` set (clients (buf w)) \<and> send_err w c = None
               then [line_message line] else [])"
    using delivered_Broadcast [of "w\<lparr>buf := b\<rparr>" line c] by (simp add: w' cl)
  have c: "clients (buf w') = clients (buf w)"
    by (simp add: w' buf_Broadcast cl)
  have e: "send_err w' = send_err w"
    by (simp add: w' Broadcast_def send_err_Broadcast_range)
  from c e d show ?thesis by blast
qed

lemma AddLines_delivered:
  assumes "AddLines xs w = Inr w'" and "distinct (map fst (clients (buf w)))"
  shows "delivered w' c = delivered w c @
           (if c \<in> fst ` set (clients (buf w)) \<and> send_err w c = None
            then map line_message xs else [])"
  using assms
proof (induction xs arbitrary: w)
  case Nil
  then show ?case by simp
next
  case (Cons x xs)
  from Cons.prems(1) obtain w1 where x: "AddLine x w = Inr w1" and xs: "AddLines xs w1 = Inr w'"
    by (auto split: sum.splits)
  from AddLine_world [OF x, of c] Cons.prems(2)
  have cl: "clients (buf w1) = clients (buf w)" and se: "send_err w1 = send_err w"
    and d: "delivered w1 c = delivered w c @
              (if c \<in> fst ` set (clients (buf w)) \<and> send_err w c = None
               then [line_message x] else [])"
    by simp_all
  from Cons.prems(2) have "distinct (map fst (clients (buf w1)))" by (simp add: cl)
  from Cons.IH [OF xs this] show ?case by (simp add: cl se d)
qed

text \<open>
  A join that does not overlap any ingestion: the subscriber receives the retained
  lines once, as the replay, and then every later line once, live.
\<close>

lemma sequential_join:
  assumes "distinct (map fst (clients (buf w)))" and "send_err w c = None"
    and "AddLines ys (AddClient c w) = Inr w'"
  shows "delivered w' c = delivered w c @ map line_message (recentLines (buf w)) @ map line_message ys"
proof -
  let ?w1 = "AddClient c w"
  have cl: "clients (buf ?w1) = AList.update c True (clients (buf w))"
    by (rule clients_AddClient)
  have d: "distinct (map fst (clients (buf ?w1)))"
    unfolding cl using assms(1) by (rule AList.distinct_update)
  have m: "c \<in> fst ` set (clients (buf ?w1))"
    unfolding cl by (simp add: AList.dom_update)
  have se: "send_err ?w1 c = None"
    using assms(2) by (simp add: AddClient_def SendHistoryToClient_def send_err_SendHistory_range)
  have h: "delivered ?w1 c = delivered w c @ map line_message (recentLines (buf w))"
    using assms(2)
    by (simp add: AddClient_def SendHistoryToClient_def GetLines_def delivered_SendHistory_range
        AddClient_locked_def)
  from AddLines_delivered [OF assms(3) d, of c] m se h show ?thesis by simp
qed





lemma broadcasts_append: "broadcasts (es @ fs) = broadcasts es @ broadcasts fs"
  by (induction es rule: broadcasts.induct) simp_all












text \<open>
  The lines left out above can indeed be missed. With capacity 1, \<open>x1\<close> and \<open>x2\<close> are
  ingested and broadcast before the subscriber registers; \<open>x2\<close> has evicted \<open>x1\<close> when the
  snapshot is taken, and the subscriber never receives \<open>x1\<close>.
\<close>

lemma join_misses_evicted_line:
  "completed [DoAddLineLocked ''x1'', DoBroadcast ''x1'', DoAddLineLocked ''x2'', DoBroadcast ''x2'',
              DoAddClientLocked 1, DoGetLines 1, DoSend 1]
     (start_sched (start_world \<lparr>recentLines = [], maxBufferSize = 1, clients = []\<rparr> (\<lambda>_. None))) 1 \<and>
   snapshot_at 1 [DoAddLineLocked ''x1'', DoBroadcast ''x1'', DoAddLineLocked ''x2'', DoBroadcast ''x2'',
              DoAddClientLocked 1, DoGetLines 1, DoSend 1]
     (start_sched (start_world \<lparr>recentLines = [], maxBufferSize = 1, clients = []\<rparr> (\<lambda>_. None)))
     = [''x2''] \<and>
   times_received [DoAddLineLocked ''x1'', DoBroadcast ''x1'', DoAddLineLocked ''x2'', DoBroadcast ''x2'',
              DoAddClientLocked 1, DoGetLines 1, DoSend 1]
     (start_sched (start_world \<lparr>recentLines = [], maxBufferSize = 1, clients = []\<rparr> (\<lambda>_. None)))
     1 ''x1'' = 0"
  by (simp add: completed_def times_received_def start_sched_def start_world_def
      AddLine_locked_def AddClient_locked_def Broadcast_def JSON_Send_def GetLines_def
      line_message_def)

subsection \<open>Appending with a positive capacity never panics\<close>

lemma AddLine_locked_no_panic:
  assumes "0 < maxBufferSize b"
  shows "\<exists>b'. AddLine_locked line b = Inr b' \<and> maxBufferSize b' = maxBufferSize b \<and>
           clients b' = clients b \<and> recentLines b' \<noteq> [] \<and> last (recentLines b') = line"
proof (cases "recentLines b")
  case Nil
  with assms show ?thesis by (simp add: AddLine_locked_def)
next
  case (Cons x rest)
  then show ?thesis by (simp add: AddLine_locked_def)
qed

lemma AddLine_no_panic:
  assumes "0 < maxBufferSize (buf w)"
  shows "\<exists>w'. AddLine line w = Inr w' \<and> maxBufferSize (buf w') = maxBufferSize (buf w) \<and>
           recentLines (buf w') \<noteq> [] \<and> last (recentLines (buf w')) = line"
proof -
  from AddLine_locked_no_panic [OF assms, of line] obtain b' where
    "AddLine_locked line (buf w) = Inr b'" "maxBufferSize b' = maxBufferSize (buf w)"
    "recentLines b' \<noteq> []" "last (recentLines b') = line"
    by blast
  then show ?thesis by (simp add: AddLine_def buf_Broadcast)
qed

lemma AddLines_no_panic:
  assumes "0 < maxBufferSize (buf w)"
  shows "\<exists>w'. AddLines xs w = Inr w' \<and> maxBufferSize (buf w') = maxBufferSize (buf w)"
  using assms
proof (induction xs arbitrary: w)
  case Nil
  show ?case by simp
next
  case (Cons x xs)
  from AddLine_no_panic [OF Cons.prems, of x] obtain w1 where
    w1: "AddLine x w = Inr w1" "maxBufferSize (buf w1) = maxBufferSize (buf w)" by blast
  with Cons.prems have "0 < maxBufferSize (buf w1)" by simp
  from Cons.IH [OF this] w1 show ?case by auto
qed

lemma AddLines_append:
  "AddLines (xs @ ys) w = (case AddLines xs w of Inl p \<Rightarrow> Inl p | Inr w' \<Rightarrow> AddLines ys w')"
  by (induction xs arbitrary: w) (auto split: sum.splits)

subsection \<open>The line framer\<close>

text \<open>The loop of \<open>ProcessStream\<close> calls \<open>AddLine\<close> on the tokens of the scanner, in order.\<close>

lemma ProcessStream_loop_run:
  "ProcessStream_loop sc prefix w =
     (case AddLines (map (with_prefix prefix) (fst (Scanner_run sc))) w of
        Inl p \<Rightarrow> Inl p
      | Inr w' \<Rightarrow> Inr (snd (Scanner_run sc), w'))"
proof (induction sc prefix w rule: ProcessStream_loop.induct)
  case (1 scanner prefix w)
  show ?case
  proof (cases "fst (Scan scanner)")
    case False
    then show ?thesis
      by (subst ProcessStream_loop.simps, subst (1 2) Scanner_run.simps) simp
  next
    case True
    show ?thesis
    proof (cases "AddLine (with_prefix prefix (Text (snd (Scan scanner)))) w")
      case (Inl p)
      with True show ?thesis
        by (subst ProcessStream_loop.simps, subst (1 2) Scanner_run.simps) simp
    next
      case (Inr w')
      with True "1.IH" [OF True Inr] show ?thesis
        by (subst ProcessStream_loop.simps, subst (1 2) Scanner_run.simps)
          (simp split: sum.splits)
    qed
  qed
qed

lemma dropCR_strip_cr: "dropCR l = strip_cr l"
  by (cases l rule: rev_cases) (simp_all add: dropCR_def strip_cr_def)


lemma takeWhile_absent: "x \<notin> set xs \<Longrightarrow> takeWhile (\<lambda>c. c \<noteq> x) xs = xs"
  by (induction xs) auto

lemma split_lines_no_newline:
  "CHR 0x0A \<notin> set xs \<Longrightarrow> split_lines cur (xs @ ys) = split_lines (cur @ xs) ys"
  by (induction xs arbitrary: cur) auto

text \<open>The lines of an input, one line at a time: the way the scanner goes through it.\<close>

lemma split_lines_unfold:
  "split_lines [] data =
     (if CHR 0x0A \<in> set data
      then takeWhile (\<lambda>c. c \<noteq> CHR 0x0A) data
           # split_lines [] (drop (Suc (length (takeWhile (\<lambda>c. c \<noteq> CHR 0x0A) data))) data)
      else if data = [] then [] else [data])"
proof (cases "CHR 0x0A \<in> set data")
  case True
  let ?line = "takeWhile (\<lambda>c. c \<noteq> CHR 0x0A) data"
  let ?rest = "dropWhile (\<lambda>c. c \<noteq> CHR 0x0A) data"
  from True have "?rest \<noteq> []" by simp
  moreover have "?rest \<noteq> [] \<Longrightarrow> hd ?rest = CHR 0x0A"
    using hd_dropWhile [of "\<lambda>c. c \<noteq> CHR 0x0A" data] by simp
  ultimately obtain tl where r: "?rest = CHR 0x0A # tl" by (cases ?rest) auto
  have d: "data = ?line @ CHR 0x0A # tl"
    using takeWhile_dropWhile_id [of "\<lambda>c. c \<noteq> CHR 0x0A" data] r by simp
  have nl: "CHR 0x0A \<notin> set ?line" by (auto dest: set_takeWhileD)
  have "drop (Suc (length ?line)) data = tl"
    by (subst (2) d) simp
  moreover have "split_lines [] data = ?line # split_lines [] tl"
    by (subst d, subst split_lines_no_newline [OF nl]) simp
  ultimately show ?thesis using True by simp
next
  case False
  then have "split_lines [] data = split_lines data []"
    using split_lines_no_newline [of data "[]" "[]"] by simp
  with False show ?thesis by simp
qed

text \<open>
  The scanner yields the lines of its input up to the first one that does not fit, each
  without its carriage return, and ends with \<open>ErrTooLong\<close> or with the end of its reader.
\<close>

lemma Scanner_run_tokens:
  "fst (Scanner_run sc) =
     map dropCR (takeWhile (\<lambda>t. length t < MaxScanTokenSize) (split_lines [] (input sc))) \<and>
   err (snd (Scanner_run sc)) =
     (if \<forall>t \<in> set (split_lines [] (input sc)). length t < MaxScanTokenSize
      then input_err sc else Some ErrTooLong)"
proof (induction sc rule: Scanner_run.induct)
  case (1 sc)
  let ?line = "takeWhile (\<lambda>c. c \<noteq> CHR 0x0A) (input sc)"
  consider (long) "MaxScanTokenSize \<le> length ?line"
    | (nl) "length ?line < MaxScanTokenSize" "CHR 0x0A \<in> set (input sc)"
    | (empty) "length ?line < MaxScanTokenSize" "CHR 0x0A \<notin> set (input sc)" "input sc = []"
    | (last) "length ?line < MaxScanTokenSize" "CHR 0x0A \<notin> set (input sc)" "input sc \<noteq> []"
  proof (cases "MaxScanTokenSize \<le> length ?line")
    case True
    then show ?thesis by (rule long)
  next
    case False
    then have short: "length ?line < MaxScanTokenSize" by simp
    show ?thesis
    proof (cases "CHR 0x0A \<in> set (input sc)")
      case True
      with short show ?thesis by (rule nl)
    next
      case False
      with short show ?thesis
        by (cases "input sc = []") (rule empty, assumption+, rule last, assumption+)
    qed
  qed
  then show ?case
  proof cases
    case long
    then have sc: "Scan sc = (False, sc\<lparr>err := Some ErrTooLong\<rparr>)"
      by (simp add: Scan_def Let_def)
    have "0 < MaxScanTokenSize" by (simp add: MaxScanTokenSize_def)
    with long have ne: "input sc \<noteq> []" by auto
    have "\<exists>ls. split_lines [] (input sc) = ?line # ls"
    proof (cases "CHR 0x0A \<in> set (input sc)")
      case True
      then show ?thesis by (subst split_lines_unfold) simp
    next
      case False
      then have e: "?line = input sc" by (rule takeWhile_absent)
      from False ne have "split_lines [] (input sc) = [input sc]"
        by (subst split_lines_unfold) simp
      then show ?thesis unfolding e by simp
    qed
    then obtain ls where "split_lines [] (input sc) = ?line # ls" by blast
    with long sc show ?thesis
      by (subst (1 2) Scanner_run.simps) simp
  next
    case nl
    let ?sc' = "sc\<lparr>tok := dropCR ?line, input := drop (Suc (length ?line)) (input sc)\<rparr>"
    from nl have sc: "Scan sc = (True, ?sc')"
      by (simp add: Scan_def Let_def)
    then have t: "fst (Scan sc)" by simp
    from nl have sl: "split_lines [] (input sc) = ?line # split_lines [] (input ?sc')"
      by (subst split_lines_unfold) simp
    from "1.IH" [OF t] sc nl(1) show ?thesis
      by (subst (1 2) Scanner_run.simps) (simp add: sl Text_def)
  next
    case empty
    then have sc: "Scan sc = (False, sc\<lparr>err := input_err sc\<rparr>)"
      by (simp add: Scan_def Let_def)
    with empty show ?thesis
      by (subst (1 2) Scanner_run.simps) simp
  next
    case last
    let ?sc' = "sc\<lparr>tok := dropCR (input sc), input := []\<rparr>"
    from last have sc: "Scan sc = (True, ?sc')"
      by (simp add: Scan_def Let_def)
    then have t: "fst (Scan sc)" by simp
    from last(2) have l: "?line = input sc" by (rule takeWhile_absent)
    from last have sl: "split_lines [] (input sc) = [input sc]"
      by (subst split_lines_unfold) simp
    from "1.IH" [OF t] sc last(1) show ?thesis
      by (subst (1 2) Scanner_run.simps) (simp add: sl Text_def l)
  qed
qed

text \<open>
  \<open>ProcessStream\<close> is the run of \<open>AddLine\<close> calls on the scanned lines, each with the
  prefix of the stream, followed by one more call when the scanner ended with an error.
\<close>

lemma ProcessStream_AddLines:
  "ProcessStream r prefix w =
     AddLines (map (with_prefix prefix) (scanned_lines (content r)) @
               (case scanned_err r of None \<Rightarrow> [] | Some e \<Rightarrow> [''[ERROR] Scanner error: '' @ e])) w"
proof -
  let ?sc = "NewScanner r"
  have t: "fst (Scanner_run ?sc) = scanned_lines (content r)"
    and e: "Err (snd (Scanner_run ?sc)) = scanned_err r"
    using Scanner_run_tokens [of ?sc]
    by (simp_all add: scanned_lines_def scanned_err_def NewScanner_def Err_def)
  show ?thesis
  proof (cases "AddLines (map (with_prefix prefix) (scanned_lines (content r))) w")
    case (Inl p)
    then show ?thesis
      by (simp add: ProcessStream_def ProcessStream_loop_run t AddLines_append)
  next
    case (Inr w')
    then show ?thesis
      by (cases "scanned_err r")
        (simp_all add: ProcessStream_def ProcessStream_loop_run t e AddLines_append
          split: sum.splits)
  qed
qed


lemma split_lines_complete:
  assumes "pre \<noteq> []" and "last pre = CHR 0x0A"
  shows "split_lines cur (pre @ tail) = split_lines cur pre @ split_lines [] tail"
  using assms
proof (induction pre arbitrary: cur)
  case Nil
  then show ?case by simp
next
  case (Cons c pre)
  show ?case
  proof (cases "pre = []")
    case True
    with Cons.prems show ?thesis by simp
  next
    case False
    with Cons.prems have "last pre = CHR 0x0A" by simp
    from Cons.IH [OF False this] show ?thesis by simp
  qed
qed

lemma split_lines_head:
  "cur \<noteq> [] \<Longrightarrow> \<exists>t ls. split_lines cur ys = (cur @ t) # ls"
proof (induction ys arbitrary: cur)
  case Nil
  then show ?case by simp
next
  case (Cons y ys)
  show ?case
  proof (cases "y = CHR 0x0A")
    case True
    then show ?thesis by simp
  next
    case False
    have "cur @ [y] \<noteq> []" by simp
    from Cons.IH [OF this] obtain t ls where "split_lines (cur @ [y]) ys = ((cur @ [y]) @ t) # ls"
      by blast
    with False show ?thesis by simp
  qed
qed

text \<open>
  After complete short lines, a line that reaches \<open>MaxScanTokenSize\<close> ends the scan: the
  lines before it are yielded, nothing of it or after it is.
\<close>

lemma scanned_too_long:
  assumes "pre = [] \<or> last pre = CHR 0x0A"
    and "\<forall>t \<in> set (split_lines [] pre). length t < MaxScanTokenSize"
    and "CHR 0x0A \<notin> set long" and "MaxScanTokenSize \<le> length long"
  shows "scanned_lines (pre @ long @ rest) = text_lines pre \<and>
         scanned_err \<lparr>content = pre @ long @ rest, failure = f\<rparr> = Some ErrTooLong"
proof -
  have "0 < MaxScanTokenSize" by (simp add: MaxScanTokenSize_def)
  with assms(4) have ne: "long \<noteq> []" by auto
  have "split_lines [] (long @ rest) = split_lines long rest"
    using split_lines_no_newline [OF assms(3), of "[]" rest] by simp
  with split_lines_head [OF ne, of rest] obtain t ls where
    hd: "split_lines [] (long @ rest) = (long @ t) # ls" by auto
  have sp: "split_lines [] (pre @ long @ rest) = split_lines [] pre @ (long @ t) # ls"
  proof (cases "pre = []")
    case True
    then show ?thesis by (simp add: hd)
  next
    case False
    with assms(1) have "last pre = CHR 0x0A" by simp
    from split_lines_complete [OF False this, of "[]" "long @ rest"] show ?thesis
      by (simp add: hd)
  qed
  have long: "\<not> length (long @ t) < MaxScanTokenSize" using assms(4) by simp
  have tw: "takeWhile (\<lambda>t. length t < MaxScanTokenSize) (split_lines [] (pre @ long @ rest))
      = split_lines [] pre"
    unfolding sp using assms(2) long by (simp add: takeWhile_append2 del: length_append)
  have ex: "\<not> (\<forall>t \<in> set (split_lines [] (pre @ long @ rest)). length t < MaxScanTokenSize)"
    unfolding sp using long by (auto simp del: length_append)
  have cr: "dropCR = strip_cr" by (rule ext) (rule dropCR_strip_cr)
  have "scanned_lines (pre @ long @ rest) = text_lines pre"
    unfolding scanned_lines_def text_lines_def tw cr ..
  moreover have "scanned_err \<lparr>content = pre @ long @ rest, failure = f\<rparr> = Some ErrTooLong"
    by (simp only: scanned_err_def reader.simps ex if_False)
  ultimately show ?thesis by (rule conjI)
qed


text \<open>A part after the last terminator is a line of its own.\<close>

lemma text_lines_partial:
  assumes "pre = [] \<or> last pre = CHR 0x0A" and "CHR 0x0A \<notin> set part" and "part \<noteq> []"
  shows "text_lines (pre @ part) = text_lines pre @ [strip_cr part]"
proof -
  have p: "split_lines [] part = [part]"
    using split_lines_no_newline [OF assms(2), of "[]" "[]"] assms(3) by simp
  show ?thesis
  proof (cases "pre = []")
    case True
    then show ?thesis by (simp add: text_lines_def p)
  next
    case False
    with assms(1) have "last pre = CHR 0x0A" by simp
    from split_lines_complete [OF False this, of "[]" part] show ?thesis
      by (simp add: text_lines_def p)
  qed
qed




text \<open>
  C7 (read error), as the code has it. When the reader of a stream ends with a read
  error and the buffer has a positive capacity, \<open>ProcessStream\<close> passes to \<open>AddLine\<close> the
  lines scanned before the error and then exactly one synthetic line, \<open>[ERROR] Scanner
  error: \<close> followed by the error (the read error, or \<open>ErrTooLong\<close> when an over-long line
  stopped the scanner first), and returns normally. The line carries the tag \<open>[ERROR]\<close>:
  it has neither the prefix of its stream nor the tag \<open>[SYSTEM]\<close> of the system lines.
\<close>

theorem read_error_line:
  assumes "failure r = Some e" and "0 < maxBufferSize (buf w)"
  shows "\<exists>w'. ProcessStream r prefix w = Inr w' \<and>
           ProcessStream r prefix w =
             AddLines (map (with_prefix prefix) (scanned_lines (content r)) @
                       [''[ERROR] Scanner error: '' @
                          (if \<forall>t \<in> set (split_lines [] (content r)). length t < MaxScanTokenSize
                           then e else ErrTooLong)]) w"
proof -
  let ?ls = "map (with_prefix prefix) (scanned_lines (content r)) @
               [''[ERROR] Scanner error: '' @
                  (if \<forall>t \<in> set (split_lines [] (content r)). length t < MaxScanTokenSize
                   then e else ErrTooLong)]"
  have "ProcessStream r prefix w = AddLines ?ls w"
    using assms(1) by (simp add: ProcessStream_AddLines scanned_err_def)
  moreover from AddLines_no_panic [OF assms(2), of ?ls] obtain w' where "AddLines ?ls w = Inr w'"
    by blast
  ultimately show ?thesis by simp
qed

text \<open>The reader delivers \<open>a\nb\<close> and then fails with \<open>read failed\<close>.\<close>

theorem read_error_line_witness:
  "failure \<lparr>content = [CHR ''a'', CHR 0x0A, CHR ''b''], failure = Some ''read failed''\<rparr>
     = Some ''read failed'' \<and>
   0 < maxBufferSize (buf (start_world \<lparr>recentLines = [], maxBufferSize = 5, clients = [(1, True)]\<rparr>
                             (\<lambda>_. None))) \<and>
   (\<exists>w'. ProcessStream \<lparr>content = [CHR ''a'', CHR 0x0A, CHR ''b''], failure = Some ''read failed''\<rparr>
            ''stdout''
            (start_world \<lparr>recentLines = [], maxBufferSize = 5, clients = [(1, True)]\<rparr> (\<lambda>_. None))
          = Inr w' \<and>
         ProcessStream \<lparr>content = [CHR ''a'', CHR 0x0A, CHR ''b''], failure = Some ''read failed''\<rparr>
            ''stdout''
            (start_world \<lparr>recentLines = [], maxBufferSize = 5, clients = [(1, True)]\<rparr> (\<lambda>_. None))
          = AddLines [''[stdout] a'', ''[stdout] b'', ''[ERROR] Scanner error: read failed'']
              (start_world \<lparr>recentLines = [], maxBufferSize = 5, clients = [(1, True)]\<rparr> (\<lambda>_. None)))"
proof -
  have f: "failure \<lparr>content = [CHR ''a'', CHR 0x0A, CHR ''b''], failure = Some ''read failed''\<rparr>
      = Some ''read failed''"
    by simp
  have m: "0 < maxBufferSize (buf (start_world \<lparr>recentLines = [], maxBufferSize = 5,
                 clients = [(1, True)]\<rparr> (\<lambda>_. None)))"
    by (simp add: start_world_def)
  have l: "map (with_prefix ''stdout'') (scanned_lines [CHR ''a'', CHR 0x0A, CHR ''b'']) @
             [''[ERROR] Scanner error: '' @
                (if \<forall>t \<in> set (split_lines [] [CHR ''a'', CHR 0x0A, CHR ''b'']). length t < MaxScanTokenSize
                 then ''read failed'' else ErrTooLong)]
           = [''[stdout] a'', ''[stdout] b'', ''[ERROR] Scanner error: read failed'']"
    by (simp add: scanned_lines_def MaxScanTokenSize_def dropCR_def with_prefix_def)
  from read_error_line [OF f m, of "''stdout''"] f m show ?thesis
    unfolding reader.simps l by blast
qed

text \<open>
  The claim as stated fails on the tag: after the read error the subscriber receives the
  two lines of stdout and the line \<open>[ERROR] Scanner error: read failed\<close>, which is not a
  system line; the viewer gives it no class, where it gives \<open>system\<close> to the lines tagged
  \<open>[SYSTEM]\<close>.
\<close>

theorem read_error_line_not_system:
  "(case ProcessStream \<lparr>content = [CHR ''a'', CHR 0x0A, CHR ''b''], failure = Some ''read failed''\<rparr>
           ''stdout''
           (start_world \<lparr>recentLines = [], maxBufferSize = 5, clients = [(1, True)]\<rparr> (\<lambda>_. None)) of
      Inl p \<Rightarrow> []
    | Inr w \<Rightarrow> delivered w 1)
     = [[(''line'', ''[stdout] a'')], [(''line'', ''[stdout] b'')],
        [(''line'', ''[ERROR] Scanner error: read failed'')]] \<and>
   className ''[ERROR] Scanner error: read failed'' = None \<and>
   className ''[SYSTEM] Command completed successfully'' = Some ''system''"
  by (simp add: ProcessStream_AddLines scanned_lines_def scanned_err_def MaxScanTokenSize_def
      dropCR_def with_prefix_def AddLine_def AddLine_locked_def Broadcast_def JSON_Send_def
      start_world_def line_message_def className_def)

text \<open>
  C9 (no silent truncation), as the code has it. The scanner has the line-length cap
  \<open>MaxScanTokenSize\<close>. A line that reaches it is not truncated: after the complete shorter
  lines before it have been passed on, the scan stops, nothing of the over-long line or
  of the rest of the stream is passed on, and the stop is surfaced as the one line
  \<open>[ERROR] Scanner error: bufio.Scanner: token too long\<close>, tagged \<open>[ERROR]\<close>.
\<close>

theorem over_long_line:
  assumes "content r = pre @ long @ rest"
    and "pre = [] \<or> last pre = CHR 0x0A"
    and "\<forall>t \<in> set (split_lines [] pre). length t < MaxScanTokenSize"
    and "CHR 0x0A \<notin> set long"
    and "MaxScanTokenSize \<le> length long"
  shows "ProcessStream r prefix w =
           AddLines (map (with_prefix prefix) (text_lines pre) @
                     [''[ERROR] Scanner error: bufio.Scanner: token too long'']) w"
proof -
  have r: "r = \<lparr>content = pre @ long @ rest, failure = failure r\<rparr>"
    using assms(1) by simp
  from scanned_too_long [OF assms(2-5), of rest "failure r"]
  have "scanned_lines (content r) = text_lines pre" and "scanned_err r = Some ErrTooLong"
    using assms(1) r by simp_all
  then show ?thesis
    by (simp add: ProcessStream_AddLines ErrTooLong_def)
qed

text \<open>The line \<open>ok\<close>, then a line of 65536 bytes, then the line \<open>after\<close>, on stderr.\<close>

theorem over_long_line_witness:
  "content \<lparr>content = [CHR ''o'', CHR ''k'', CHR 0x0A] @ replicate 65536 (CHR ''x'') @ (CHR 0x0A # ''after''),
            failure = None\<rparr>
     = [CHR ''o'', CHR ''k'', CHR 0x0A] @ replicate 65536 (CHR ''x'') @ (CHR 0x0A # ''after'') \<and>
   last [CHR ''o'', CHR ''k'', CHR 0x0A] = CHR 0x0A \<and>
   CHR 0x0A \<notin> set (replicate 65536 (CHR ''x'')) \<and>
   MaxScanTokenSize \<le> length (replicate 65536 (CHR ''x'')) \<and>
   ProcessStream
       \<lparr>content = [CHR ''o'', CHR ''k'', CHR 0x0A] @ replicate 65536 (CHR ''x'') @ (CHR 0x0A # ''after''),
        failure = None\<rparr> ''stderr''
       (start_world \<lparr>recentLines = [], maxBufferSize = 5, clients = []\<rparr> (\<lambda>_. None))
     = AddLines [''[stderr] ok'', ''[ERROR] Scanner error: bufio.Scanner: token too long'']
         (start_world \<lparr>recentLines = [], maxBufferSize = 5, clients = []\<rparr> (\<lambda>_. None))"
proof -
  let ?r = "\<lparr>content = [CHR ''o'', CHR ''k'', CHR 0x0A] @ replicate 65536 (CHR ''x'') @ (CHR 0x0A # ''after''),
             failure = None\<rparr>"
  have c: "content ?r
     = [CHR ''o'', CHR ''k'', CHR 0x0A] @ replicate 65536 (CHR ''x'') @ (CHR 0x0A # ''after'')"
    by (simp only: reader.simps)
  have p: "[CHR ''o'', CHR ''k'', CHR 0x0A] = [] \<or> last [CHR ''o'', CHR ''k'', CHR 0x0A] = CHR 0x0A"
    by simp
  have s: "\<forall>t \<in> set (split_lines [] [CHR ''o'', CHR ''k'', CHR 0x0A]). length t < MaxScanTokenSize"
    by (simp add: MaxScanTokenSize_def)
  have n: "CHR 0x0A \<notin> set (replicate 65536 (CHR ''x''))" by simp
  have l: "MaxScanTokenSize \<le> length (replicate 65536 (CHR ''x''))"
    by (simp add: MaxScanTokenSize_def)
  have t: "map (with_prefix ''stderr'') (text_lines [CHR ''o'', CHR ''k'', CHR 0x0A]) = [''[stderr] ok'']"
    by (simp add: text_lines_def strip_cr_def with_prefix_def)
  have "ProcessStream ?r ''stderr''
       (start_world \<lparr>recentLines = [], maxBufferSize = 5, clients = []\<rparr> (\<lambda>_. None))
     = AddLines [''[stderr] ok'', ''[ERROR] Scanner error: bufio.Scanner: token too long'']
         (start_world \<lparr>recentLines = [], maxBufferSize = 5, clients = []\<rparr> (\<lambda>_. None))"
    using over_long_line [OF c p s n l, of "''stderr''"] by (simp only: t append.simps)
  moreover have "last [CHR ''o'', CHR ''k'', CHR 0x0A] = CHR 0x0A" by simp
  ultimately show ?thesis using c n l by blast
qed

text \<open>
  The claim as stated fails on the tag of the line that surfaces the cap: for a stream
  that is one line of 65536 bytes the subscriber receives the single line \<open>[ERROR]
  Scanner error: bufio.Scanner: token too long\<close>, which is not a system line for the
  viewer.
\<close>

theorem over_long_line_not_system:
  "(case ProcessStream \<lparr>content = replicate 65536 (CHR ''x''), failure = None\<rparr> ''stderr''
           (start_world \<lparr>recentLines = [], maxBufferSize = 5, clients = [(1, True)]\<rparr> (\<lambda>_. None)) of
      Inl p \<Rightarrow> []
    | Inr w \<Rightarrow> delivered w 1)
     = [[(''line'', ''[ERROR] Scanner error: bufio.Scanner: token too long'')]] \<and>
   className ''[ERROR] Scanner error: bufio.Scanner: token too long'' = None"
proof -
  let ?w = "start_world \<lparr>recentLines = [], maxBufferSize = 5, clients = [(1, True)]\<rparr> (\<lambda>_. None)"
  have nl: "CHR 0x0A \<notin> set (replicate 65536 (CHR ''x''))" by simp
  have len: "MaxScanTokenSize \<le> length (replicate 65536 (CHR ''x''))"
    by (simp add: MaxScanTokenSize_def)
  have "scanned_lines ([] @ replicate 65536 (CHR ''x'') @ []) = text_lines [] \<and>
        scanned_err \<lparr>content = [] @ replicate 65536 (CHR ''x'') @ [], failure = None\<rparr>
          = Some ErrTooLong"
    by (rule scanned_too_long [OF _ _ nl len]) simp_all
  then have "ProcessStream \<lparr>content = replicate 65536 (CHR ''x''), failure = None\<rparr> ''stderr'' ?w
     = AddLines [''[ERROR] Scanner error: bufio.Scanner: token too long''] ?w"
    by (simp add: ProcessStream_AddLines text_lines_def ErrTooLong_def)
  then have p: "(case ProcessStream \<lparr>content = replicate 65536 (CHR ''x''), failure = None\<rparr> ''stderr'' ?w of
      Inl p \<Rightarrow> []
    | Inr w \<Rightarrow> delivered w 1)
     = [[(''line'', ''[ERROR] Scanner error: bufio.Scanner: token too long'')]]"
    by (simp add: AddLine_def AddLine_locked_def start_world_def Broadcast_def JSON_Send_def
        line_message_def)
  have c: "className ''[ERROR] Scanner error: bufio.Scanner: token too long'' = None"
    by (simp add: className_def)
  from p c show ?thesis by (rule conjI)
qed

subsection \<open>The empty command\<close>

lemma space_width_table:
  "\<forall>enc \<in> set unicode_spaces. space_width (enc @ rest) = length enc \<and> enc \<noteq> []"
  unfolding unicode_spaces_def space_width_def
  by simp

lemma Fields_from_skip:
  "Fields_from (length xs) field (xs @ rest) = Fields_from 0 field rest"
  by (induction xs) simp_all

lemma Fields_from_space:
  assumes "enc \<in> set unicode_spaces"
  shows "Fields_from 0 [] (enc @ rest) = Fields_from 0 [] rest"
proof -
  from assms space_width_table [of rest]
  have w: "space_width (enc @ rest) = length enc" and ne: "enc \<noteq> []" by auto
  from ne obtain c cs where enc: "enc = c # cs" by (cases enc) auto
  have "Fields_from 0 [] (enc @ rest) = Fields_from (length cs) [] (cs @ rest)"
    using w by (simp add: enc)
  then show ?thesis by (simp add: Fields_from_skip)
qed

lemma Fields_spaces:
  assumes "set ws \<subseteq> set unicode_spaces"
  shows "Fields (concat ws) = []"
  using assms unfolding Fields_def
proof (induction ws)
  case Nil
  show ?case by simp
next
  case (Cons enc ws)
  then have "enc \<in> set unicode_spaces" and "set ws \<subseteq> set unicode_spaces" by auto
  with Cons.IH show ?case by (simp add: Fields_from_space)
qed

text \<open>
  C10 (empty command). For every command that is a sequence of white space characters,
  the empty sequence included, \<open>ExecuteCommand\<close> returns the error \<open>empty command\<close> and
  the world it was given, unchanged, whatever the operating system would have done
  with a process: no pipe is made, no process started, no line appended and nothing
  sent.
\<close>

theorem ExecuteCommand_empty:
  assumes "command = concat ws" and "set ws \<subseteq> set unicode_spaces"
  shows "ExecuteCommand os command w = Inr (Some ''empty command'', w)"
  using Fields_spaces [OF assms(2)] by (simp add: ExecuteCommand_def assms(1))

text \<open>A space, a tab and a no-break space (U+00A0, two bytes).\<close>

theorem ExecuteCommand_empty_witness:
  "[CHR 0x20, CHR 0x09, CHR 0xC2, CHR 0xA0] = concat [[CHR 0x20], [CHR 0x09], [CHR 0xC2, CHR 0xA0]] \<and>
   set [[CHR 0x20], [CHR 0x09], [CHR 0xC2, CHR 0xA0]] \<subseteq> set unicode_spaces \<and>
   ExecuteCommand (\<lambda>name args. \<lparr>stdout_pipe_err = None, stderr_pipe_err = None, start_err = None,
                                   streamed = [''[stdout] x''], wait_err = None\<rparr>)
     [CHR 0x20, CHR 0x09, CHR 0xC2, CHR 0xA0]
     (start_world \<lparr>recentLines = [], maxBufferSize = 2, clients = []\<rparr> (\<lambda>_. None))
   = Inr (Some ''empty command'',
          start_world \<lparr>recentLines = [], maxBufferSize = 2, clients = []\<rparr> (\<lambda>_. None))"
proof -
  have c: "[CHR 0x20, CHR 0x09, CHR 0xC2, CHR 0xA0] = concat [[CHR 0x20], [CHR 0x09], [CHR 0xC2, CHR 0xA0]]"
    by simp
  have s: "set [[CHR 0x20], [CHR 0x09], [CHR 0xC2, CHR 0xA0]] \<subseteq> set unicode_spaces"
    by (simp add: unicode_spaces_def)
  from ExecuteCommand_empty [OF c s] c s show ?thesis by blast
qed

end
